theory Spec2Isabelle
  imports Main
begin

section \<open>Python values and string primitives\<close>

text \<open>
  The development embeds the diff-to-spec extractor (\<^verbatim>\<open>get_specs_to_check\<close>) and the
  version expander (\<^verbatim>\<open>expand_specs_to_check_package_versions\<close>, with
  \<^verbatim>\<open>get_safe_versions\<close> and \<^verbatim>\<open>run\<close>) of \<^verbatim>\<open>build_pr_changes.py\<close>.

  A Python \<^verbatim>\<open>str\<close> is modelled as a \<^typ>\<open>string\<close>; a \<^typ>\<open>char\<close> stands for one
  code point below 256. Exceptions are values of type \<open>error\<close>; a function that may
  raise returns \<open>error + 'a\<close>.
\<close>

datatype error = IndexError | ValueError | SystemExit int

abbreviation newline :: char where
  "newline \<equiv> CHR 0x0A"

text \<open>\<^verbatim>\<open>s.startswith(p)\<close>\<close>

definition starts_with :: "string \<Rightarrow> string \<Rightarrow> bool" where
  "starts_with p s = (take (length p) s = p)"

text \<open>\<^verbatim>\<open>s.split(sep)\<close> for a separator of one character: the fields between the
  separators, empty fields kept; the result is never empty.\<close>

fun split_on :: "char \<Rightarrow> string \<Rightarrow> string list" where
  "split_on sep [] = [[]]"
| "split_on sep (c # cs) =
     (if c = sep then [] # split_on sep cs
      else (case split_on sep cs of w # ws \<Rightarrow> (c # w) # ws | [] \<Rightarrow> [[c]]))"

text \<open>The characters below 256 for which \<^verbatim>\<open>str.isspace\<close> holds; \<^verbatim>\<open>s.split()\<close> and
  \<^verbatim>\<open>s.strip()\<close> use them.\<close>

definition is_space :: "char \<Rightarrow> bool" where
  "is_space c = (c \<in> {CHR 0x09, CHR 0x0A, CHR 0x0B, CHR 0x0C, CHR 0x0D, CHR 0x1C,
     CHR 0x1D, CHR 0x1E, CHR 0x1F, CHR 0x20, CHR 0x85, CHR 0xA0})"

text \<open>\<^verbatim>\<open>s.split()\<close>: the maximal runs of non-whitespace characters.\<close>

fun split_ws_acc :: "string \<Rightarrow> string \<Rightarrow> string list" where
  "split_ws_acc w [] = (if w = [] then [] else [rev w])"
| "split_ws_acc w (c # cs) =
     (if is_space c then (if w = [] then split_ws_acc [] cs else rev w # split_ws_acc [] cs)
      else split_ws_acc (c # w) cs)"

definition split_ws :: "string \<Rightarrow> string list" where
  "split_ws s = split_ws_acc [] s"

text \<open>\<^verbatim>\<open>s.strip()\<close>\<close>

definition strip :: "string \<Rightarrow> string" where
  "strip s = rev (dropWhile is_space (rev (dropWhile is_space s)))"

text \<open>\<^verbatim>\<open>" ".join(xs)\<close>\<close>

fun join_sp :: "string list \<Rightarrow> string" where
  "join_sp [] = []"
| "join_sp [x] = x"
| "join_sp (x # y # ys) = x @ '' '' @ join_sp (y # ys)"

text \<open>\<^verbatim>\<open>xs[:n]\<close>: a negative bound counts from the end.\<close>

definition slice_to :: "int \<Rightarrow> 'a list \<Rightarrow> 'a list" where
  "slice_to n xs = (if 0 \<le> n then take (nat n) xs else take (length xs - nat (- n)) xs)"

section \<open>The regular expressions of the extractor\<close>

text \<open>
  Every pattern the extractor searches for is a sequence of atoms, with at most one
  greedy group \<^verbatim>\<open>(.*)\<close> or \<^verbatim>\<open>(.+)\<close> in it. \<open>Lit c\<close> is the character \<open>c\<close>, \<open>Dot\<close> is
  \<^verbatim>\<open>.\<close> (any character but a newline) and \<open>Eol\<close> is \<^verbatim>\<open>$\<close> (the end of the text, or the
  place before a newline that ends it).
\<close>

datatype atom = Lit char | Dot | Eol

definition lits :: "string \<Rightarrow> atom list" where
  "lits s = map Lit s"

text \<open>The atoms match at the start of the text: the text left after them.\<close>

fun match_here :: "atom list \<Rightarrow> string \<Rightarrow> string option" where
  "match_here [] s = Some s"
| "match_here (Eol # p) s = (if s = [] \<or> s = [newline] then match_here p s else None)"
| "match_here (Lit c # p) [] = None"
| "match_here (Lit c # p) (d # s) = (if c = d then match_here p s else None)"
| "match_here (Dot # p) [] = None"
| "match_here (Dot # p) (d # s) = (if d = newline then None else match_here p s)"

text \<open>
  A greedy group of at least \<open>n\<close> characters followed by the atoms \<open>suf\<close>, at the start
  of the text: the group takes as many characters as it can and gives them back one by
  one until \<open>suf\<close> matches, as a backtracking matcher does. The result is the text of
  the group.
\<close>

fun match_group :: "nat \<Rightarrow> atom list \<Rightarrow> string \<Rightarrow> string option" where
  "match_group n suf [] = (if n = 0 \<and> match_here suf [] \<noteq> None then Some [] else None)"
| "match_group n suf (c # cs) =
     (case (if c = newline then None else match_group (n - 1) suf cs) of
        Some g \<Rightarrow> Some (c # g)
      | None \<Rightarrow> if n = 0 \<and> match_here suf (c # cs) \<noteq> None then Some [] else None)"

text \<open>The pattern \<open>pre\<close>, group, \<open>suf\<close> tried at the start of the text.\<close>

definition match_at :: "atom list \<Rightarrow> nat \<Rightarrow> atom list \<Rightarrow> string \<Rightarrow> string option" where
  "match_at pre n suf s =
     (case match_here pre s of None \<Rightarrow> None | Some rest \<Rightarrow> match_group n suf rest)"

text \<open>\<^verbatim>\<open>re.search(pattern, s)\<close> for such a pattern: the leftmost position where it
  matches; the result is \<^verbatim>\<open>group(1)\<close>, and \<open>None\<close> when there is no match.\<close>

fun re_search :: "atom list \<Rightarrow> nat \<Rightarrow> atom list \<Rightarrow> string \<Rightarrow> string option" where
  "re_search pre n suf [] = match_at pre n suf []"
| "re_search pre n suf (c # cs) =
     (case match_at pre n suf (c # cs) of
        Some g \<Rightarrow> Some g
      | None \<Rightarrow> re_search pre n suf cs)"

text \<open>\<^verbatim>\<open>re.search(pattern, s)\<close> for a pattern with no group: whether it matches
  somewhere.\<close>

fun re_test :: "atom list \<Rightarrow> string \<Rightarrow> bool" where
  "re_test p [] = (match_here p [] \<noteq> None)"
| "re_test p (c # cs) = (if match_here p (c # cs) \<noteq> None then True else re_test p cs)"

text \<open>\<^verbatim>\<open>r"\+\+\+ b/(.*)"\<close>\<close>

definition re_changed_path :: "string \<Rightarrow> string option" where
  "re_changed_path line = re_search (lits ''+++ b/'') 0 [] line"

text \<open>\<^verbatim>\<open>r"var/spack/repos/builtin/packages/(.*)/package.py"\<close>\<close>

definition re_recipe :: "string \<Rightarrow> string option" where
  "re_recipe changed_file =
     re_search (lits ''var/spack/repos/builtin/packages/'') 0
       (lits ''/package'' @ [Dot] @ lits ''py'') changed_file"

text \<open>\<^verbatim>\<open>r"version\($"\<close>\<close>

definition re_version_start :: "string \<Rightarrow> bool" where
  "re_version_start line = re_test (lits ''version('' @ [Eol]) line"

text \<open>\<^verbatim>\<open>r'version\("(.+)", '\<close>\<close>

definition re_version :: "string \<Rightarrow> string option" where
  \<open>re_version line = re_search (lits ''version("'') 1 (lits ''", '') line\<close>

text \<open>\<^verbatim>\<open>r'"(.+)"'\<close>\<close>

definition re_quoted :: "string \<Rightarrow> string option" where
  \<open>re_quoted line = re_search (lits ''"'') 1 (lits ''"'') line\<close>

text \<open>\<^verbatim>\<open>r'variant\("(.+)", '\<close>\<close>

definition re_variant :: "string \<Rightarrow> string option" where
  \<open>re_variant line = re_search (lits ''variant("'') 1 (lits ''", '') line\<close>

section \<open>The extractor: \<^verbatim>\<open>get_specs_to_check\<close>\<close>

text \<open>The local variables of \<^verbatim>\<open>get_specs_to_check\<close> that the loop over the lines of the
  diff reads and writes.\<close>

record parse_state =
  changed_files :: "string list"
  changed_recipe :: string
  recipe_paths :: "string list"
  recipes :: "string list"
  specs :: "string list"
  variants :: "string list"
  versions :: "string list"
  next_line_is_version :: bool

definition initial_state :: parse_state where
  "initial_state = \<lparr>changed_files = [], changed_recipe = [], recipe_paths = [], recipes = [],
     specs = [], variants = [], versions = [], next_line_is_version = False\<rparr>"

text \<open>\<^verbatim>\<open>if x in xs: xs.remove(x)\<close>: the first occurrence goes.\<close>

definition remove_if_in :: "string \<Rightarrow> string list \<Rightarrow> string list" where
  "remove_if_in x xs = (if x \<in> set xs then remove1 x xs else xs)"

text \<open>
  One turn of the loop. \<^verbatim>\<open>line[0]\<close> raises \<^verbatim>\<open>IndexError\<close> on an empty line; every
  \<^verbatim>\<open>continue\<close> is a branch that returns the state.
\<close>

definition scan_line :: "parse_state \<Rightarrow> string \<Rightarrow> error + parse_state" where
  "scan_line st line =
     (if starts_with ''diff --git'' line then
        Inr (st\<lparr>changed_recipe := [], versions := [], variants := [],
                next_line_is_version := False\<rparr>)
      else
        (case line of
           [] \<Rightarrow> Inl IndexError
         | c # _ \<Rightarrow>
             (if c \<noteq> CHR ''+'' then Inr st
              else
                (case re_changed_path line of
                   Some changed_file \<Rightarrow>
                     (case re_recipe changed_file of
                        Some recipe \<Rightarrow>
                          Inr (st\<lparr>changed_files := changed_files st @ [changed_file],
                                  recipe_paths := recipe_paths st @ [changed_file],
                                  changed_recipe := recipe,
                                  recipes := recipes st @ [recipe],
                                  specs := specs st @ [recipe]\<rparr>)
                      | None \<Rightarrow>
                          Inr (st\<lparr>changed_files := changed_files st @ [changed_file]\<rparr>))
                 | None \<Rightarrow>
                     (if changed_recipe st = [] then Inr st
                      else if re_version_start line then
                        Inr (st\<lparr>next_line_is_version := True\<rparr>)
                      else if next_line_is_version st \<or> re_version line \<noteq> None then
                        (case (case re_version line of
                                 Some v \<Rightarrow> Some v
                               | None \<Rightarrow> re_quoted line) of
                           Some v \<Rightarrow>
                             Inr (st\<lparr>next_line_is_version := False,
                                     specs := remove_if_in (changed_recipe st) (specs st)
                                              @ [changed_recipe st @ ''@'' @ v]\<rparr>)
                         | None \<Rightarrow> Inr (st\<lparr>next_line_is_version := False\<rparr>))
                      else
                        (case re_variant line of
                           Some v \<Rightarrow>
                             Inr (st\<lparr>variants := variants st @ [''+'' @ v],
                                     specs := (remove_if_in (changed_recipe st) (specs st)
                                                @ [changed_recipe st @ (''+'' @ v)])
                                              @ map (\<lambda>version. changed_recipe st @ (''+'' @ v)
                                                                 @ ''@'' @ version)
                                                  (versions st)\<rparr>)
                         | None \<Rightarrow> Inr st))))))"

text \<open>The loop: it stops at the first exception.\<close>

fun scan_lines :: "parse_state \<Rightarrow> string list \<Rightarrow> error + parse_state" where
  "scan_lines st [] = Inr st"
| "scan_lines st (line # rest) =
     (case scan_line st line of Inl e \<Rightarrow> Inl e | Inr st' \<Rightarrow> scan_lines st' rest)"

text \<open>The extractor on the text of a diff: \<^verbatim>\<open>for line in stdout.split("\n")\<close> from the
  initial values of the variables, and \<^verbatim>\<open>return specs\<close>.\<close>

definition parse_diff :: "string \<Rightarrow> error + string list" where
  "parse_diff stdout =
     (case scan_lines initial_state (split_on newline stdout) of
        Inl e \<Rightarrow> Inl e
      | Inr st \<Rightarrow> Inr (specs st))"

section \<open>Running commands: \<^verbatim>\<open>run\<close>\<close>

text \<open>
  The commands are external. A \<open>process\<close> gives, for a command line, the return code
  and the two output streams that \<^verbatim>\<open>subprocess.run\<close> captures; the same command line
  gives the same answer. \<^verbatim>\<open>run\<close> logs the command line with \<^verbatim>\<open>info\<close> and strips both
  streams: the model returns the logged message beside the result.
\<close>

type_synonym process = "string list \<Rightarrow> int \<times> string \<times> string"

definition run :: "process \<Rightarrow> string list \<Rightarrow> (int \<times> string \<times> string) \<times> string" where
  "run proc command =
     (case proc command of
        (returncode, out, err) \<Rightarrow> ((returncode, strip out, strip err), join_sp command))"

text \<open>
  \<^verbatim>\<open>get_specs_to_check\<close>: the diff is the output of \<^verbatim>\<open>gh pr diff\<close>; a return code other
  than 0 or any text on the error stream ends the program with \<^verbatim>\<open>sys.exit(err)\<close>. The
  second component is what was logged.
\<close>

definition get_specs_to_check :: "process \<Rightarrow> (error + string list) \<times> string list" where
  "get_specs_to_check proc =
     (case run proc [''gh'', ''pr'', ''diff''] of
        ((err, stdout, stderr), msg) \<Rightarrow>
          (if err \<noteq> 0 \<or> stderr \<noteq> [] then Inl (SystemExit err) else parse_diff stdout,
           [msg]))"

section \<open>The expander: \<^verbatim>\<open>get_safe_versions\<close> and
  \<^verbatim>\<open>expand_specs_to_check_package_versions\<close>\<close>

text \<open>
  The first loop of \<^verbatim>\<open>get_safe_versions\<close>, over the lines of the command's output:
  the words of every line that does not start with the header.
\<close>

definition safe_version_words :: "string \<Rightarrow> string list" where
  "safe_version_words stdout =
     fold (\<lambda>line acc. if starts_with ''==> Safe versions'' line then acc
                       else acc @ split_ws line)
       (split_on newline stdout) []"

text \<open>The second loop: for each of the three labels in turn, its first occurrence is
  removed when there is one.\<close>

definition remove_skip_versions :: "string list \<Rightarrow> string list" where
  "remove_skip_versions safe_versions =
     fold (\<lambda>skip_version acc. remove_if_in skip_version acc)
       [''master'', ''develop'', ''main''] safe_versions"

text \<open>
  \<^verbatim>\<open>get_safe_versions(spec)\<close>: the recipe is the text before the first \<^verbatim>\<open>+\<close>; the words
  are read only when \<^verbatim>\<open>bin/spack versions --safe recipe\<close> returns 0. The second
  component is the message that \<^verbatim>\<open>run\<close> logged.
\<close>

definition get_safe_versions :: "process \<Rightarrow> string \<Rightarrow> string list \<times> string" where
  "get_safe_versions proc spec =
     (let recipe = hd (split_on (CHR ''+'') spec) in
      case run proc [''bin/spack'', ''versions'', ''--safe'', recipe] of
        ((err, stdout, _), msg) \<Rightarrow>
          (remove_skip_versions (if err = 0 then safe_version_words stdout else []), msg))"

text \<open>
  The loop of \<^verbatim>\<open>expand_specs_to_check_package_versions\<close> over the copy of the list:
  \<open>specs_to_check\<close> is the list being changed. \<^verbatim>\<open>list.remove\<close> raises \<^verbatim>\<open>ValueError\<close>
  when the element is not in the list. The second component collects the messages
  logged, in order. (\<open>safe\<close> is the source's local \<^verbatim>\<open>versions\<close>.)
\<close>

fun expand_loop ::
  "process \<Rightarrow> int \<Rightarrow> string list \<Rightarrow> string list \<Rightarrow> (error + string list) \<times> string list" where
  "expand_loop proc max_versions [] specs_to_check = (Inr specs_to_check, [])"
| "expand_loop proc max_versions (spec # rest) specs_to_check =
     (let recipe = hd (split_on (CHR ''@'') spec) in
      case get_safe_versions proc recipe of
        (safe, msg) \<Rightarrow>
          (if safe \<noteq> [] then
             (if spec \<in> set specs_to_check then
                (case expand_loop proc max_versions rest
                        (remove1 spec specs_to_check
                         @ map (\<lambda>version. recipe @ ''@'' @ version)
                             (slice_to max_versions safe)) of
                   (r, msgs) \<Rightarrow> (r, msg # msgs))
              else (Inl ValueError, [msg]))
           else
             (case expand_loop proc max_versions rest specs_to_check of
                (r, msgs) \<Rightarrow> (r, msg # msgs))))"

definition expand_specs_to_check_package_versions ::
  "process \<Rightarrow> string list \<Rightarrow> int \<Rightarrow> (error + string list) \<times> string list" where
  "expand_specs_to_check_package_versions proc specs_to_check max_versions =
     expand_loop proc max_versions specs_to_check specs_to_check"

section \<open>Notions used in the statements\<close>

text \<open>The text before the first occurrence of a character: \<^verbatim>\<open>s.split(sep)[0]\<close>.\<close>

abbreviation before :: "char \<Rightarrow> string \<Rightarrow> string" where
  "before sep s \<equiv> takeWhile (\<lambda>c. c \<noteq> sep) s"

text \<open>The versions the expander obtains for a spec, and the specs it appends for it.\<close>

definition safe_versions_of :: "process \<Rightarrow> string \<Rightarrow> string list" where
  "safe_versions_of proc spec = fst (get_safe_versions proc (hd (split_on (CHR ''@'') spec)))"

definition expansion :: "process \<Rightarrow> int \<Rightarrow> string \<Rightarrow> string list" where
  "expansion proc max_versions spec =
     map (\<lambda>version. hd (split_on (CHR ''@'') spec) @ ''@'' @ version)
       (slice_to max_versions (safe_versions_of proc spec))"


text \<open>A plain recipe name has neither \<^verbatim>\<open>@\<close> nor \<^verbatim>\<open>+\<close> in it.\<close>

definition plain :: "string \<Rightarrow> bool" where
  "plain r = (CHR ''@'' \<notin> set r \<and> CHR ''+'' \<notin> set r)"

text \<open>The recipe that a line makes the extractor append as a bare spec: the line is
  an addition line, not a file boundary, \<^verbatim>\<open>+++ b/\<close> is found in it and the recipe
  pattern is found in the path. \<open>path_recipes\<close> lists them for the lines of a diff.\<close>

definition path_recipe :: "string \<Rightarrow> string option" where
  "path_recipe line =
     (if starts_with ''diff --git'' line then None
      else
        (case line of
           [] \<Rightarrow> None
         | c # _ \<Rightarrow>
             (if c \<noteq> CHR ''+'' then None
              else (case re_changed_path line of
                      None \<Rightarrow> None
                    | Some changed_file \<Rightarrow> re_recipe changed_file))))"

definition path_recipes :: "string list \<Rightarrow> string list" where
  "path_recipes lines = List.map_filter path_recipe lines"

section \<open>A factorisation of the loop body\<close>

text \<open>
  For the proofs, one turn of the loop is split in two: \<open>classify\<close> decides which branch
  a line takes, from the line and the two variables the branch conditions read;
  \<open>perform\<close> is the effect of that branch. Lemma \<open>scan_line_classify\<close> shows that
  together they are \<open>scan_line\<close>.
\<close>

datatype line_kind =
    Boundary
  | Empty_Line
  | Not_Addition
  | Recipe_Path string string
  | Other_Path string
  | No_Recipe
  | Version_Start
  | Version_Value string
  | Version_Missing
  | Variant_Decl string
  | Other_Line

definition classify :: "string \<Rightarrow> bool \<Rightarrow> string \<Rightarrow> line_kind" where
  "classify cur awaiting line =
     (if starts_with ''diff --git'' line then Boundary
      else
        (case line of
           [] \<Rightarrow> Empty_Line
         | c # _ \<Rightarrow>
             (if c \<noteq> CHR ''+'' then Not_Addition
              else
                (case re_changed_path line of
                   Some changed_file \<Rightarrow>
                     (case re_recipe changed_file of
                        Some recipe \<Rightarrow> Recipe_Path changed_file recipe
                      | None \<Rightarrow> Other_Path changed_file)
                 | None \<Rightarrow>
                     (if cur = [] then No_Recipe
                      else if re_version_start line then Version_Start
                      else if awaiting \<or> re_version line \<noteq> None then
                        (case (case re_version line of
                                 Some v \<Rightarrow> Some v
                               | None \<Rightarrow> re_quoted line) of
                           Some v \<Rightarrow> Version_Value v
                         | None \<Rightarrow> Version_Missing)
                      else
                        (case re_variant line of
                           Some v \<Rightarrow> Variant_Decl v
                         | None \<Rightarrow> Other_Line))))))"

fun perform :: "parse_state \<Rightarrow> line_kind \<Rightarrow> error + parse_state" where
  "perform st Boundary =
     Inr (st\<lparr>changed_recipe := [], versions := [], variants := [],
             next_line_is_version := False\<rparr>)"
| "perform st Empty_Line = Inl IndexError"
| "perform st Not_Addition = Inr st"
| "perform st (Recipe_Path changed_file recipe) =
     Inr (st\<lparr>changed_files := changed_files st @ [changed_file],
             recipe_paths := recipe_paths st @ [changed_file],
             changed_recipe := recipe,
             recipes := recipes st @ [recipe],
             specs := specs st @ [recipe]\<rparr>)"
| "perform st (Other_Path changed_file) =
     Inr (st\<lparr>changed_files := changed_files st @ [changed_file]\<rparr>)"
| "perform st No_Recipe = Inr st"
| "perform st Version_Start = Inr (st\<lparr>next_line_is_version := True\<rparr>)"
| "perform st (Version_Value v) =
     Inr (st\<lparr>next_line_is_version := False,
             specs := remove_if_in (changed_recipe st) (specs st)
                      @ [changed_recipe st @ ''@'' @ v]\<rparr>)"
| "perform st Version_Missing = Inr (st\<lparr>next_line_is_version := False\<rparr>)"
| "perform st (Variant_Decl v) =
     Inr (st\<lparr>variants := variants st @ [''+'' @ v],
             specs := (remove_if_in (changed_recipe st) (specs st)
                        @ [changed_recipe st @ (''+'' @ v)])
                      @ map (\<lambda>version. changed_recipe st @ (''+'' @ v) @ ''@'' @ version)
                          (versions st)\<rparr>)"
| "perform st Other_Line = Inr st"

text \<open>The state after a second diff, when the lists that only grow start from those
  of \<open>base\<close>.\<close>

definition lift_state :: "parse_state \<Rightarrow> parse_state \<Rightarrow> parse_state" where
  "lift_state base st =
     st\<lparr>changed_files := changed_files base @ changed_files st,
        recipe_paths := recipe_paths base @ recipe_paths st,
        recipes := recipes base @ recipes st,
        specs := specs base @ specs st\<rparr>"

section \<open>The invariant of the bare entries\<close>

text \<open>
  \<open>more_specific r e\<close>: the entry \<open>e\<close> is \<open>r\<close> followed by a version or a variant.
  \<open>bare_inv r p st\<close> relates the number of bare entries \<open>r\<close> in the collection to the
  number \<open>p\<close> of path lines that named \<open>r\<close> so far: there are at most \<open>p\<close> of them, and
  fewer once the collection holds a more specific entry for \<open>r\<close>.
\<close>

definition more_specific :: "string \<Rightarrow> string \<Rightarrow> bool" where
  "more_specific r e = (\<exists>v. e = r @ ''@'' @ v \<or> e = r @ ''+'' @ v)"

definition bare_inv :: "string \<Rightarrow> nat \<Rightarrow> parse_state \<Rightarrow> bool" where
  "bare_inv r p st =
     (plain (changed_recipe st)
      \<and> (changed_recipe st = r \<and> r \<noteq> [] \<longrightarrow> 1 \<le> p)
      \<and> count_list (specs st) r \<le> p
      \<and> ((\<exists>e\<in>set (specs st). more_specific r e) \<longrightarrow> count_list (specs st) r < p))"

section \<open>Example inputs\<close>

text \<open>A change to the recipe \<^verbatim>\<open>foo\<close> that adds a dependency, and no version.\<close>

definition diff_foo_dependency :: string where
  \<open>diff_foo_dependency =
     ''diff --git a/var/spack/repos/builtin/packages/foo/package.py b/var/spack/repos/builtin/packages/foo/package.py\<newline>'' @
     ''index 1111111..2222222 100644\<newline>'' @
     ''--- a/var/spack/repos/builtin/packages/foo/package.py\<newline>'' @
     ''+++ b/var/spack/repos/builtin/packages/foo/package.py\<newline>'' @
     ''@@ -20,3 +20,4 @@ class Foo(Package):\<newline>'' @
     ''     depends_on("zlib")\<newline>'' @
     ''+    depends_on("bzip2")''\<close>

text \<open>A change to the recipe \<^verbatim>\<open>foo\<close> that adds two versions.\<close>

definition diff_foo_two_versions :: string where
  \<open>diff_foo_two_versions =
     ''diff --git a/var/spack/repos/builtin/packages/foo/package.py b/var/spack/repos/builtin/packages/foo/package.py\<newline>'' @
     ''index 2222222..3333333 100644\<newline>'' @
     ''--- a/var/spack/repos/builtin/packages/foo/package.py\<newline>'' @
     ''+++ b/var/spack/repos/builtin/packages/foo/package.py\<newline>'' @
     ''@@ -10,6 +10,8 @@ class Foo(Package):\<newline>'' @
     ''+    version("2.1", sha256="abc")\<newline>'' @
     ''+    version("2.0", sha256="def")\<newline>'' @
     ''     version("1.9", sha256="123")''\<close>

text \<open>A change to the recipe \<^verbatim>\<open>bar\<close> that adds one version.\<close>

definition diff_bar_version :: string where
  \<open>diff_bar_version =
     ''diff --git a/var/spack/repos/builtin/packages/bar/package.py b/var/spack/repos/builtin/packages/bar/package.py\<newline>'' @
     ''index 4444444..5555555 100644\<newline>'' @
     ''--- a/var/spack/repos/builtin/packages/bar/package.py\<newline>'' @
     ''+++ b/var/spack/repos/builtin/packages/bar/package.py\<newline>'' @
     ''@@ -8,6 +8,7 @@ class Bar(Package):\<newline>'' @
     ''+    version("1.0", sha256="abc")\<newline>'' @
     ''     version("0.9", sha256="def")''\<close>


text \<open>A change to the recipe \<^verbatim>\<open>foo\<close> that adds two versions and then two variants.\<close>

definition diff_foo_versions_variants :: string where
  \<open>diff_foo_versions_variants =
     ''diff --git a/var/spack/repos/builtin/packages/foo/package.py b/var/spack/repos/builtin/packages/foo/package.py\<newline>'' @
     ''index 1111111..2222222 100644\<newline>'' @
     ''--- a/var/spack/repos/builtin/packages/foo/package.py\<newline>'' @
     ''+++ b/var/spack/repos/builtin/packages/foo/package.py\<newline>'' @
     ''@@ -10,6 +10,10 @@ class Foo(Package):\<newline>'' @
     ''+    version("2.0", sha256="abc")\<newline>'' @
     ''+    version("1.0", sha256="def")\<newline>'' @
     ''+    variant("shared", default=True, description="Build shared libraries")\<newline>'' @
     ''+    variant("mpi", default=False, description="Enable MPI")\<newline>'' @
     ''     depends_on("zlib")''\<close>

text \<open>A change to the recipe \<^verbatim>\<open>foo\<close> that adds a version with two more arguments.\<close>

definition diff_foo_version_deprecated :: string where
  \<open>diff_foo_version_deprecated =
     ''diff --git a/var/spack/repos/builtin/packages/foo/package.py b/var/spack/repos/builtin/packages/foo/package.py\<newline>'' @
     ''index 1111111..2222222 100644\<newline>'' @
     ''--- a/var/spack/repos/builtin/packages/foo/package.py\<newline>'' @
     ''+++ b/var/spack/repos/builtin/packages/foo/package.py\<newline>'' @
     ''@@ -10,6 +10,7 @@ class Foo(Package):\<newline>'' @
     ''+    version("2.1", sha256="abc", deprecated=True)\<newline>'' @
     ''     version("2.0", sha256="def")''\<close>

text \<open>A change that adds a version to the recipe \<^verbatim>\<open>foo\<close> and adds a copy of the recipe
  file beside it.\<close>

definition diff_foo_and_orig :: string where
  \<open>diff_foo_and_orig =
     ''diff --git a/var/spack/repos/builtin/packages/foo/package.py b/var/spack/repos/builtin/packages/foo/package.py\<newline>'' @
     ''index 1111111..2222222 100644\<newline>'' @
     ''--- a/var/spack/repos/builtin/packages/foo/package.py\<newline>'' @
     ''+++ b/var/spack/repos/builtin/packages/foo/package.py\<newline>'' @
     ''@@ -10,6 +10,7 @@ class Foo(Package):\<newline>'' @
     ''+    version("2.1", sha256="abc")\<newline>'' @
     ''     version("2.0", sha256="def")\<newline>'' @
     ''diff --git a/var/spack/repos/builtin/packages/foo/package.py.orig b/var/spack/repos/builtin/packages/foo/package.py.orig\<newline>'' @
     ''new file mode 100644\<newline>'' @
     ''index 0000000..3333333\<newline>'' @
     ''--- /dev/null\<newline>'' @
     ''+++ b/var/spack/repos/builtin/packages/foo/package.py.orig\<newline>'' @
     ''@@ -0,0 +1 @@\<newline>'' @
     ''+# Copyright 2024''\<close>

text \<open>A pull request with no change: \<^verbatim>\<open>gh pr diff\<close> prints nothing and returns 0.\<close>

definition gh_no_changes :: process where
  "gh_no_changes command = (0, [], [])"


text \<open>A build tool that knows the recipe \<^verbatim>\<open>wget\<close> and no other.\<close>

definition spack :: process where
  "spack command =
     (if command = [''bin/spack'', ''versions'', ''--safe'', ''wget''] then
        (0, ''==> Safe versions (already checksummed):\<newline>master  2.4.1  2.3  2.2  2.1\<newline>'', [])
      else (1, [], ''==> Error: Package not found.\<newline>''))"

section \<open>Strings and lists\<close>

lemma remove_if_in_append_left:
  "x \<notin> set pre \<Longrightarrow> remove_if_in x (pre @ xs) = pre @ remove_if_in x xs"
  by (simp add: remove_if_in_def remove1_append)

lemma split_on_not_Nil: "split_on sep s \<noteq> []"
  by (induction s) (auto split: list.splits)

lemma hd_split_on: "hd (split_on sep s) = takeWhile (\<lambda>c. c \<noteq> sep) s"
  by (induction s) (auto split: list.splits simp: split_on_not_Nil)

lemma split_on_append: "split_on sep (a @ sep # b) = split_on sep a @ split_on sep b"
  by (induction a) (auto split: list.splits simp: split_on_not_Nil)

lemma takeWhile_takeWhile_after:
  "takeWhile P (takeWhile P xs @ y # ys) = (if P y then takeWhile P xs @ y # takeWhile P ys else takeWhile P xs)"
  by (induction xs) auto

lemma count_list_filter:
  "count_list (filter P xs) x = (if P x then count_list xs x else 0)"
  by (induction xs) auto

lemma starts_with_first_line:
  assumes "starts_with p d" and "newline \<notin> set p"
  shows "\<exists>rest. split_on newline d = takeWhile (\<lambda>c. c \<noteq> newline) d # rest
           \<and> starts_with p (takeWhile (\<lambda>c. c \<noteq> newline) d)"
proof -
  from assms(1) have d: "d = p @ drop (length p) d"
    by (metis append_take_drop_id starts_with_def)
  from assms(2) have "\<forall>c\<in>set p. c \<noteq> newline" by auto
  then have "takeWhile (\<lambda>c. c \<noteq> newline) (p @ drop (length p) d)
             = p @ takeWhile (\<lambda>c. c \<noteq> newline) (drop (length p) d)"
    by (simp add: takeWhile_append2)
  with d have "takeWhile (\<lambda>c. c \<noteq> newline) d = p @ takeWhile (\<lambda>c. c \<noteq> newline) (drop (length p) d)"
    by simp
  then have "starts_with p (takeWhile (\<lambda>c. c \<noteq> newline) d)"
    by (simp add: starts_with_def)
  moreover have "\<exists>rest. split_on newline d = takeWhile (\<lambda>c. c \<noteq> newline) d # rest"
    using hd_split_on [of newline d] split_on_not_Nil [of newline d]
    by (cases "split_on newline d") auto
  ultimately show ?thesis by blast
qed

lemma before_before:
  assumes "x \<in> set (takeWhile P s)" and "\<not> Q x"
  shows "takeWhile Q (takeWhile P s) = takeWhile Q s"
  using assms by (induction s) (auto split: if_splits)

lemma remove_once:
  "count_list xs x \<le> 1 \<Longrightarrow> remove_if_in x xs = filter (\<lambda>y. y \<noteq> x) xs"
  by (induction xs) (auto simp: remove_if_in_def count_list_0_iff filter_id_conv)

lemma count_list_filter_le: "count_list (filter P xs) x \<le> count_list xs x"
  by (induction xs) auto

lemma remove_skip_versions_filter:
  assumes "count_list vs ''master'' \<le> 1" "count_list vs ''develop'' \<le> 1" "count_list vs ''main'' \<le> 1"
  shows "remove_skip_versions vs = filter (\<lambda>v. v \<notin> {''master'', ''develop'', ''main''}) vs"
proof -
  have a: "remove_if_in ''master'' vs = filter (\<lambda>y. y \<noteq> ''master'') vs"
    using assms(1) by (rule remove_once)
  have "count_list (filter (\<lambda>y. y \<noteq> ''master'') vs) ''develop'' \<le> 1"
    using assms(2) count_list_filter_le [of "\<lambda>y. y \<noteq> ''master''" vs "''develop''"] by simp
  then have b: "remove_if_in ''develop'' (filter (\<lambda>y. y \<noteq> ''master'') vs)
                = filter (\<lambda>y. y \<noteq> ''develop'') (filter (\<lambda>y. y \<noteq> ''master'') vs)"
    by (rule remove_once)
  have "count_list (filter (\<lambda>y. y \<noteq> ''develop'') (filter (\<lambda>y. y \<noteq> ''master'') vs)) ''main'' \<le> 1"
    using assms(3) count_list_filter_le [of "\<lambda>y. y \<noteq> ''master''" vs "''main''"]
      count_list_filter_le [of "\<lambda>y. y \<noteq> ''develop''" "filter (\<lambda>y. y \<noteq> ''master'') vs" "''main''"]
    by simp
  then have c: "remove_if_in ''main'' (filter (\<lambda>y. y \<noteq> ''develop'') (filter (\<lambda>y. y \<noteq> ''master'') vs))
                = filter (\<lambda>y. y \<noteq> ''main'') (filter (\<lambda>y. y \<noteq> ''develop'') (filter (\<lambda>y. y \<noteq> ''master'') vs))"
    by (rule remove_once)
  have "remove_skip_versions vs
        = filter (\<lambda>y. y \<noteq> ''main'') (filter (\<lambda>y. y \<noteq> ''develop'') (filter (\<lambda>y. y \<noteq> ''master'') vs))"
    by (simp only: remove_skip_versions_def fold_simps a b c)
  also have "\<dots> = filter (\<lambda>v. v \<notin> {''master'', ''develop'', ''main''}) vs"
    by (induction vs) auto
  finally show ?thesis .
qed

lemma count_list_le_filter:
  "P x \<Longrightarrow> count_list xs x \<le> length (filter P xs)"
  by (induction xs) auto

section \<open>The loop body by cases\<close>

lemma scan_line_classify:
  "scan_line st line = perform st (classify (changed_recipe st) (next_line_is_version st) line)"
  by (auto simp: scan_line_def classify_def split: list.split option.split)

lemma path_recipe_classify:
  "path_recipe line = (case classify cur aw line of Recipe_Path f r \<Rightarrow> Some r | _ \<Rightarrow> None)"
  by (simp add: path_recipe_def classify_def split: list.split option.split)

lemma classify_needs_recipe:
  "classify cur aw line = Version_Value v \<or> classify cur aw line = Variant_Decl v \<Longrightarrow> cur \<noteq> []"
  by (auto simp: classify_def split: list.splits option.splits if_splits)

lemma classify_Empty_Line: "classify cur aw line = Empty_Line \<longleftrightarrow> line = []"
  by (auto simp: classify_def starts_with_def split: list.splits option.splits if_splits)

lemma scan_line_boundary:
  "starts_with ''diff --git'' line \<Longrightarrow>
   scan_line st line = Inr (st\<lparr>changed_recipe := [], versions := [], variants := [],
                              next_line_is_version := False\<rparr>)"
  by (simp add: scan_line_def)

lemma path_recipe_boundary: "starts_with ''diff --git'' line \<Longrightarrow> path_recipe line = None"
  by (simp add: path_recipe_def)

lemma scan_lines_append:
  "scan_lines st (a @ b) =
     (case scan_lines st a of Inl e \<Rightarrow> Inl e | Inr st' \<Rightarrow> scan_lines st' b)"
  by (induction a arbitrary: st) (auto split: sum.splits)

lemma path_recipes_Cons:
  "path_recipes (line # lines) =
     (case path_recipe line of None \<Rightarrow> path_recipes lines | Some r \<Rightarrow> r # path_recipes lines)"
  by (simp add: path_recipes_def List.map_filter_simps split: option.split)

lemma path_recipes_Nil: "path_recipes [] = []"
  by (simp add: path_recipes_def List.map_filter_simps)

lemma lift_state_sel:
  "changed_recipe (lift_state base st) = changed_recipe st"
  "next_line_is_version (lift_state base st) = next_line_is_version st"
  "specs (lift_state base st) = specs base @ specs st"
  by (simp_all add: lift_state_def)

lemma perform_lift:
  assumes "\<And>v. k = Version_Value v \<or> k = Variant_Decl v \<Longrightarrow> changed_recipe st \<notin> set (specs base)"
  shows "perform (lift_state base st) k = map_sum id (lift_state base) (perform st k)"
  using assms by (cases k) (simp_all add: lift_state_def remove_if_in_append_left)

lemma scan_line_lift:
  assumes "changed_recipe st = [] \<or> changed_recipe st \<notin> set (specs base)"
  shows "scan_line (lift_state base st) line = map_sum id (lift_state base) (scan_line st line)"
proof -
  let ?k = "classify (changed_recipe st) (next_line_is_version st) line"
  have "perform (lift_state base st) ?k = map_sum id (lift_state base) (perform st ?k)"
  proof (rule perform_lift)
    fix v assume "?k = Version_Value v \<or> ?k = Variant_Decl v"
    then have "changed_recipe st \<noteq> []" by (rule classify_needs_recipe)
    with assms show "changed_recipe st \<notin> set (specs base)" by simp
  qed
  then show ?thesis by (simp add: scan_line_classify lift_state_sel)
qed

lemma scan_line_changed_recipe:
  assumes "scan_line st line = Inr st'"
  shows "changed_recipe st' = changed_recipe st \<or> changed_recipe st' = []
         \<or> path_recipe line = Some (changed_recipe st')"
proof -
  let ?k = "classify (changed_recipe st) (next_line_is_version st) line"
  from assms have "perform st ?k = Inr st'" by (simp add: scan_line_classify)
  then show ?thesis
    by (cases ?k) (auto simp: path_recipe_classify [of line "changed_recipe st" "next_line_is_version st"])
qed

lemma scan_lines_lift:
  assumes "changed_recipe st = [] \<or> changed_recipe st \<notin> set (specs base)"
    and "set (specs base) \<inter> set (path_recipes lines) = {}"
  shows "scan_lines (lift_state base st) lines = map_sum id (lift_state base) (scan_lines st lines)"
  using assms
proof (induction lines arbitrary: st)
  case Nil
  then show ?case by simp
next
  case (Cons line lines)
  have step: "scan_line (lift_state base st) line = map_sum id (lift_state base) (scan_line st line)"
    using Cons.prems(1) by (rule scan_line_lift)
  show ?case
  proof (cases "scan_line st line")
    case (Inl e)
    with step show ?thesis by simp
  next
    case (Inr st')
    from scan_line_changed_recipe [OF Inr] Cons.prems
    have c: "changed_recipe st' = [] \<or> changed_recipe st' \<notin> set (specs base)"
      by (auto simp: path_recipes_Cons)
    from Cons.prems(2) have d: "set (specs base) \<inter> set (path_recipes lines) = {}"
      by (auto simp: path_recipes_Cons split: option.splits)
    from Cons.IH [OF c d] step Inr show ?thesis by simp
  qed
qed

section \<open>Parsing two diffs one after the other\<close>

text \<open>
  Claim C9: two diffs are independent when no recipe that the path lines of the second
  name is an entry of the result of the first. When each of two independent diffs parses
  without an exception and the second starts with a file boundary, parsing the first
  diff, a newline and the second diff gives the specs of the first followed by the specs
  of the second, so exactly their union: at the boundary the current recipe, the lists
  of versions and variants and the flag are reset, and nothing of the first diff acts on
  the second.
\<close>

theorem concat_diffs:
  assumes r1: "parse_diff d1 = Inr s1"
    and r2: "parse_diff d2 = Inr s2"
    and marker: "starts_with ''diff --git'' d2"
    and indep: "set s1 \<inter> set (path_recipes (split_on newline d2)) = {}"
  shows "parse_diff (d1 @ [newline] @ d2) = Inr (s1 @ s2)"
proof -
  from r1 obtain st1 where st1: "scan_lines initial_state (split_on newline d1) = Inr st1"
    and s1: "specs st1 = s1"
    by (auto simp: parse_diff_def split: sum.splits)
  from r2 obtain st2 where st2: "scan_lines initial_state (split_on newline d2) = Inr st2"
    and s2: "specs st2 = s2"
    by (auto simp: parse_diff_def split: sum.splits)
  from starts_with_first_line [OF marker] obtain b rest
    where l2: "split_on newline d2 = b # rest" and b: "starts_with ''diff --git'' b"
    by auto
  have reset1: "scan_line st1 b = Inr (lift_state st1 initial_state)"
    using b by (simp add: scan_line_boundary lift_state_def initial_state_def)
  have reset0: "scan_line initial_state b = Inr initial_state"
    using b by (simp add: scan_line_boundary initial_state_def)
  from st2 l2 reset0 have rest2: "scan_lines initial_state rest = Inr st2" by simp
  have "set (specs st1) \<inter> set (path_recipes rest) = {}"
    using indep l2 s1 b by (simp add: path_recipes_Cons path_recipe_boundary)
  then have "scan_lines (lift_state st1 initial_state) rest
             = map_sum id (lift_state st1) (scan_lines initial_state rest)"
    by (intro scan_lines_lift) (simp_all add: initial_state_def)
  with rest2 have "scan_lines (lift_state st1 initial_state) rest = Inr (lift_state st1 st2)"
    by simp
  with reset1 have "scan_lines st1 (b # rest) = Inr (lift_state st1 st2)" by simp
  with st1 l2 have "scan_lines initial_state (split_on newline (d1 @ [newline] @ d2))
                    = Inr (lift_state st1 st2)"
    by (simp add: split_on_append scan_lines_append)
  then show ?thesis by (simp add: parse_diff_def lift_state_sel s1 s2)
qed


theorem concat_diffs_witness:
  "parse_diff diff_foo_dependency = Inr [''foo'']
   \<and> parse_diff diff_bar_version = Inr [''bar@1.0'']
   \<and> starts_with ''diff --git'' diff_bar_version
   \<and> set [''foo''] \<inter> set (path_recipes (split_on newline diff_bar_version)) = {}
   \<and> parse_diff (diff_foo_dependency @ [newline] @ diff_bar_version)
       = Inr ([''foo''] @ [''bar@1.0''])"
proof -
  have h1: "parse_diff diff_foo_dependency = Inr [''foo'']"
    by code_simp
  have h2: "parse_diff diff_bar_version = Inr [''bar@1.0'']"
    by code_simp
  have h3: "starts_with ''diff --git'' diff_bar_version"
    by code_simp
  have h4: "set [''foo''] \<inter> set (path_recipes (split_on newline diff_bar_version)) = {}"
    by code_simp
  from concat_diffs [OF h1 h2 h3 h4] h1 h2 h3 h4 show ?thesis by blast
qed

text \<open>
  The two diffs must be independent. A version line removes the first bare entry of its
  recipe from the one collection that all file blocks share: when both diffs change the
  file of the recipe \<^verbatim>\<open>foo\<close>, the bare \<^verbatim>\<open>foo\<close> that the first leaves is removed by the
  second.
\<close>

lemma same_file_twice_not_union:
  "parse_diff diff_foo_dependency = Inr [''foo'']
   \<and> parse_diff diff_foo_two_versions = Inr [''foo@2.1'', ''foo@2.0'']
   \<and> starts_with ''diff --git'' diff_foo_two_versions
   \<and> parse_diff (diff_foo_dependency @ [newline] @ diff_foo_two_versions)
       = Inr [''foo@2.1'', ''foo@2.0'']
   \<and> set [''foo@2.1'', ''foo@2.0''] \<noteq> set [''foo''] \<union> set [''foo@2.1'', ''foo@2.0'']"
  by code_simp

section \<open>Lines that raise\<close>

lemma scan_lines_error:
  "scan_lines st lines = Inl e \<Longrightarrow> e = IndexError \<and> [] \<in> set lines"
proof (induction lines arbitrary: st)
  case Nil
  then show ?case by simp
next
  case (Cons line lines)
  let ?k = "classify (changed_recipe st) (next_line_is_version st) line"
  show ?case
  proof (cases "scan_line st line")
    case (Inl e')
    then have "perform st ?k = Inl e'" by (simp add: scan_line_classify)
    then have "?k = Empty_Line \<and> e' = IndexError" by (cases ?k) auto
    with Inl Cons.prems show ?thesis by (simp add: classify_Empty_Line)
  next
    case (Inr st')
    with Cons show ?thesis by auto
  qed
qed

lemma scan_lines_empty_line:
  "[] \<in> set lines \<Longrightarrow> scan_lines st lines = Inl IndexError"
proof (induction lines arbitrary: st)
  case Nil
  then show ?case by simp
next
  case (Cons line lines)
  show ?case
  proof (cases "scan_line st line")
    case (Inl e)
    with scan_lines_error [of st "[line]" e] show ?thesis by simp
  next
    case (Inr st')
    then have "line \<noteq> []" by (auto simp: scan_line_def starts_with_def)
    with Cons Inr show ?thesis by simp
  qed
qed

lemma parse_diff_raises_iff:
  "parse_diff d = Inl e \<longleftrightarrow> e = IndexError \<and> [] \<in> set (split_on newline d)"
  using scan_lines_error [of initial_state "split_on newline d" e]
    scan_lines_empty_line [of "split_on newline d" initial_state]
  by (auto simp: parse_diff_def split: sum.splits)

text \<open>
  Claim C8 says that every line that matches no pattern, empty lines in particular, is
  skipped without an error. \<^verbatim>\<open>line[0]\<close> raises \<^verbatim>\<open>IndexError\<close> on an empty line: the
  extractor fails on the empty diff. (By \<open>parse_diff_raises_iff\<close> the empty lines are the
  only ones that make it fail.)
\<close>

theorem empty_diff_raises: "parse_diff [] = Inl IndexError"
  by code_simp

lemma no_changes_raises: "fst (get_specs_to_check gh_no_changes) = Inl IndexError"
  by code_simp

section \<open>Versions and variants of one file block\<close>

text \<open>
  Claim C2 says that two versions and then two variants of one recipe give eight specs,
  the four combinations of a variant with a version among them. The loop over
  \<^verbatim>\<open>versions\<close> that would append the combinations runs over a list to which nothing is
  ever appended (\<open>versions_never_filled\<close>): the extractor returns four specs.
\<close>

theorem no_variant_version_combinations:
  "parse_diff diff_foo_versions_variants
   = Inr [''foo@2.0'', ''foo@1.0'', ''foo+shared'', ''foo+mpi'']"
  by code_simp

lemma scan_line_versions:
  "scan_line st line = Inr st' \<Longrightarrow> versions st = [] \<Longrightarrow> versions st' = []"
  by (cases "classify (changed_recipe st) (next_line_is_version st) line")
     (auto simp: scan_line_classify)

lemma versions_never_filled:
  "scan_lines st lines = Inr st' \<Longrightarrow> versions st = [] \<Longrightarrow> versions st' = []"
  by (induction lines arbitrary: st) (auto split: sum.splits dest: scan_line_versions)

section \<open>The text taken as the version\<close>

text \<open>
  Claim C5 says that the version is the first quoted token of the line. The group
  \<^verbatim>\<open>(.+)\<close> is greedy: it ends at the last \<^verbatim>\<open>", \<close> of the line, so for a version
  declaration with two more arguments the text taken is not \<^verbatim>\<open>2.1\<close>.
\<close>

theorem greedy_version_text:
  \<open>parse_diff diff_foo_version_deprecated = Inr [''foo@2.1", sha256="abc'']\<close>
  by code_simp

section \<open>The concrete scenario\<close>










section \<open>Bare entries and more specific entries\<close>

lemma plain_prefix_unique:
  assumes "plain a" "plain b" "a @ c # v = b @ d # w"
    and "c = CHR ''@'' \<or> c = CHR ''+''" and "d = CHR ''@'' \<or> d = CHR ''+''"
  shows "a = b"
proof -
  let ?P = "\<lambda>x. x \<noteq> CHR ''@'' \<and> x \<noteq> CHR ''+''"
  have pa: "\<forall>x\<in>set a. ?P x" and pb: "\<forall>x\<in>set b. ?P x"
    using assms(1,2) by (auto simp: plain_def)
  have "takeWhile ?P (a @ c # v) = a @ takeWhile ?P (c # v)"
    using pa by (simp add: takeWhile_append2)
  then have "takeWhile ?P (a @ c # v) = a" using assms(4) by auto
  moreover have "takeWhile ?P (b @ d # w) = b @ takeWhile ?P (d # w)"
    using pb by (simp add: takeWhile_append2)
  then have "takeWhile ?P (b @ d # w) = b" using assms(5) by auto
  ultimately show ?thesis using assms(3) by simp
qed

lemma more_specific_same_recipe:
  assumes "plain a" "plain b" "c = CHR ''@'' \<or> c = CHR ''+''" "more_specific b (a @ c # v)"
  shows "a = b"
proof -
  from assms(4) obtain w where
    "a @ c # v = b @ CHR ''@'' # w \<or> a @ c # v = b @ CHR ''+'' # w"
    unfolding more_specific_def by auto
  then show ?thesis
  proof
    assume "a @ c # v = b @ CHR ''@'' # w"
    from plain_prefix_unique [OF assms(1,2) this assms(3)] show ?thesis by simp
  next
    assume "a @ c # v = b @ CHR ''+'' # w"
    from plain_prefix_unique [OF assms(1,2) this assms(3)] show ?thesis by simp
  qed
qed

lemma plain_not_more_specific: "plain e \<Longrightarrow> \<not> more_specific r e"
  by (auto simp: more_specific_def plain_def)

lemma plain_neq_specific: "plain r \<Longrightarrow> c = CHR ''@'' \<or> c = CHR ''+'' \<Longrightarrow> a @ c # v \<noteq> r"
  by (auto simp: plain_def)

lemma count_list_remove_if_in:
  "count_list (remove_if_in c xs) r = (if c = r then count_list xs r - 1 else count_list xs r)"
proof (cases "c \<in> set xs")
  case False
  then show ?thesis by (auto simp: remove_if_in_def count_list_0_iff)
next
  case True
  have "count_list (remove1 c xs) r = (if c = r then count_list xs r - 1 else count_list xs r)"
    using True by (induction xs) auto
  with True show ?thesis by (simp add: remove_if_in_def)
qed

lemma set_remove_if_in: "set (remove_if_in c xs) \<subseteq> set xs"
  using set_remove1_subset [of c xs] by (auto simp: remove_if_in_def)

lemma bare_inv_initial: "bare_inv r 0 initial_state"
  by (simp add: bare_inv_def initial_state_def plain_def)

lemma bare_inv_specific:
  assumes inv: "bare_inv r p st" and r: "plain r" and cur: "changed_recipe st \<noteq> []"
    and c: "c = CHR ''@'' \<or> c = CHR ''+''"
    and new: "\<forall>e\<in>set new. \<exists>v. e = changed_recipe st @ c # v"
    and st': "changed_recipe st' = changed_recipe st"
             "specs st' = remove_if_in (changed_recipe st) (specs st) @ new"
  shows "bare_inv r p st'"
proof -
  let ?cur = "changed_recipe st"
  from inv have pc: "plain ?cur"
    and p1: "?cur = r \<and> r \<noteq> [] \<longrightarrow> 1 \<le> p"
    and le: "count_list (specs st) r \<le> p"
    and lt: "(\<exists>e\<in>set (specs st). more_specific r e) \<longrightarrow> count_list (specs st) r < p"
    by (simp_all add: bare_inv_def)
  have "e \<noteq> r" if "e \<in> set new" for e
  proof -
    from new that obtain v where "e = ?cur @ c # v" by blast
    with plain_neq_specific [OF r c, of ?cur v] show ?thesis by simp
  qed
  then have "r \<notin> set new" by blast
  then have new_not_r: "count_list new r = 0" by (simp add: count_list_0_iff)
  have cnt: "count_list (specs st') r
             = (if ?cur = r then count_list (specs st) r - 1 else count_list (specs st) r)"
    unfolding st'(2) by (simp add: new_not_r count_list_remove_if_in)
  have c3: "count_list (specs st') r \<le> p" using cnt le by (simp split: if_splits)
  have c4: "count_list (specs st') r < p" if "\<exists>e\<in>set (specs st'). more_specific r e"
  proof (cases "?cur = r")
    case True
    with p1 cur have "1 \<le> p" by simp
    with cnt True le show ?thesis by simp
  next
    case False
    have "\<not> more_specific r e" if "e \<in> set new" for e
    proof
      assume m: "more_specific r e"
      from new that obtain v where "e = ?cur @ c # v" by blast
      with m more_specific_same_recipe [OF pc r c, of v] False show False by simp
    qed
    with that have "\<exists>e\<in>set (remove_if_in ?cur (specs st)). more_specific r e"
      unfolding st'(2) by auto
    then have "\<exists>e\<in>set (specs st). more_specific r e"
      using set_remove_if_in [of ?cur "specs st"] by blast
    with lt cnt False show ?thesis by simp
  qed
  have c2: "changed_recipe st' = r \<and> r \<noteq> [] \<longrightarrow> 1 \<le> p"
    using p1 by (simp add: st'(1))
  have c1: "plain (changed_recipe st')" using pc by (simp add: st'(1))
  from c1 c2 c3 c4 show ?thesis unfolding bare_inv_def by blast
qed

lemma perform_bare_inv:
  assumes step: "perform st k = Inr st'"
    and k: "k = classify (changed_recipe st) (next_line_is_version st) line"
    and inv: "bare_inv r p st" and r: "plain r"
    and recipe: "\<And>x. path_recipe line = Some x \<Longrightarrow> plain x"
  shows "bare_inv r (p + (if path_recipe line = Some r then 1 else 0)) st'"
proof -
  have pr: "path_recipe line = (case k of Recipe_Path f x \<Rightarrow> Some x | _ \<Rightarrow> None)"
    unfolding k by (rule path_recipe_classify)
  show ?thesis
  proof (cases k)
    case (Recipe_Path f x)
    with pr have px: "path_recipe line = Some x" by simp
    then have "plain x" by (rule recipe)
    then have "\<not> more_specific r x" by (rule plain_not_more_specific)
    with step inv Recipe_Path px \<open>plain x\<close> show ?thesis
      by (auto simp: bare_inv_def)
  next
    case (Version_Value v)
    then have cur: "changed_recipe st \<noteq> []"
      using classify_needs_recipe [of "changed_recipe st" "next_line_is_version st" line v] k
      by simp
    from step Version_Value have
      e: "st' = st\<lparr>next_line_is_version := False,
                   specs := remove_if_in (changed_recipe st) (specs st)
                            @ [changed_recipe st @ ''@'' @ v]\<rparr>"
      by simp
    have "bare_inv r p st'"
    proof (rule bare_inv_specific [OF inv r cur, of "CHR ''@''" "[changed_recipe st @ ''@'' @ v]"])
      show "CHR ''@'' = CHR ''@'' \<or> CHR ''@'' = CHR ''+''" by simp
      show "\<forall>e\<in>set [changed_recipe st @ ''@'' @ v]. \<exists>w. e = changed_recipe st @ CHR ''@'' # w"
        by simp
      show "changed_recipe st' = changed_recipe st" by (simp add: e)
      show "specs st' = remove_if_in (changed_recipe st) (specs st)
                        @ [changed_recipe st @ ''@'' @ v]"
        by (simp add: e)
    qed
    with pr Version_Value show ?thesis by simp
  next
    case (Variant_Decl v)
    then have cur: "changed_recipe st \<noteq> []"
      using classify_needs_recipe [of "changed_recipe st" "next_line_is_version st" line v] k
      by simp
    let ?new = "[changed_recipe st @ (''+'' @ v)]
                @ map (\<lambda>version. changed_recipe st @ (''+'' @ v) @ ''@'' @ version) (versions st)"
    from step Variant_Decl have
      e: "st' = st\<lparr>variants := variants st @ [''+'' @ v],
                   specs := remove_if_in (changed_recipe st) (specs st) @ ?new\<rparr>"
      by simp
    have "bare_inv r p st'"
    proof (rule bare_inv_specific [OF inv r cur, of "CHR ''+''" ?new])
      show "CHR ''+'' = CHR ''@'' \<or> CHR ''+'' = CHR ''+''" by simp
      show "\<forall>e\<in>set ?new. \<exists>w. e = changed_recipe st @ CHR ''+'' # w" by auto
      show "changed_recipe st' = changed_recipe st" by (simp add: e)
      show "specs st' = remove_if_in (changed_recipe st) (specs st) @ ?new" by (simp add: e)
    qed
    with pr Variant_Decl show ?thesis by simp
  qed (use step inv pr in \<open>auto simp: bare_inv_def plain_def\<close>)
qed


lemma scan_lines_bare_inv:
  assumes "scan_lines st lines = Inr st'" and "bare_inv r p st" and "plain r"
    and "list_all plain (path_recipes lines)"
  shows "bare_inv r (p + count_list (path_recipes lines) r) st'"
  using assms
proof (induction lines arbitrary: st p)
  case Nil
  then show ?case by (simp add: path_recipes_Nil)
next
  case (Cons line lines)
  from Cons.prems(1) obtain st1 where s1: "scan_line st line = Inr st1"
    and rest: "scan_lines st1 lines = Inr st'"
    by (auto split: sum.splits)
  let ?q = "p + (if path_recipe line = Some r then 1 else 0)"
  have "bare_inv r ?q st1"
  proof (rule perform_bare_inv [OF _ refl Cons.prems(2,3)])
    show "perform st (classify (changed_recipe st) (next_line_is_version st) line) = Inr st1"
      using s1 by (simp add: scan_line_classify)
    show "plain x" if "path_recipe line = Some x" for x
      using that Cons.prems(4) by (simp add: path_recipes_Cons)
  qed
  moreover have "list_all plain (path_recipes lines)"
    using Cons.prems(4) by (simp add: path_recipes_Cons split: option.splits)
  ultimately have "bare_inv r (?q + count_list (path_recipes lines) r) st'"
    using rest Cons.prems(3) Cons.IH by blast
  moreover have "?q + count_list (path_recipes lines) r
                 = p + count_list (path_recipes (line # lines)) r"
    by (simp add: path_recipes_Cons split: option.splits)
  ultimately show ?case by simp
qed

text \<open>
  Claim C3 says that the collection never holds both the bare entry of a recipe and a
  more specific entry of it, once a more specific one has been seen. The version and
  variant branches remove the bare entry, but a path line appends the bare recipe with no
  test, and the recipe pattern is searched for anywhere in the path, with nothing after
  \<^verbatim>\<open>package.py\<close> excluded. The diff changes \<^verbatim>\<open>foo/package.py\<close>, adding a version, and adds
  \<^verbatim>\<open>foo/package.py.orig\<close>, which the pattern takes for the recipe file of \<^verbatim>\<open>foo\<close>: the
  result holds \<^verbatim>\<open>foo@2.1\<close> and the bare \<^verbatim>\<open>foo\<close>.
\<close>

theorem bare_and_versioned_together:
  "parse_diff diff_foo_and_orig = Inr [''foo@2.1'', ''foo'']"
  by code_simp


text \<open>
  Where the pattern names each recipe once, the branches do what they attempt: when
  every recipe that the path lines of the diff name is plain, the collection returned
  never holds both the bare entry of a plain recipe that at most one path line names and
  an entry made of that recipe followed by a version or a variant.
\<close>

lemma bare_superseded:
  assumes "parse_diff d = Inr result"
    and "list_all plain (path_recipes (split_on newline d))"
    and "plain r"
    and "count_list (path_recipes (split_on newline d)) r \<le> 1"
  shows "\<not> (r \<in> set result \<and> (r @ ''@'' @ v \<in> set result \<or> r @ ''+'' @ v \<in> set result))"
proof
  assume both: "r \<in> set result \<and> (r @ ''@'' @ v \<in> set result \<or> r @ ''+'' @ v \<in> set result)"
  from assms(1) obtain st where st: "scan_lines initial_state (split_on newline d) = Inr st"
    and res: "specs st = result"
    by (auto simp: parse_diff_def split: sum.splits)
  from scan_lines_bare_inv [OF st bare_inv_initial assms(3,2)]
  have inv: "bare_inv r (count_list (path_recipes (split_on newline d)) r) st" by simp
  from both res have "\<exists>e\<in>set (specs st). more_specific r e"
    by (auto simp: more_specific_def)
  with inv assms(4) have "count_list (specs st) r = 0" by (simp add: bare_inv_def)
  with both res show False by (simp add: count_list_0_iff)
qed

lemma bare_superseded_example:
  "parse_diff diff_foo_two_versions = Inr [''foo@2.1'', ''foo@2.0'']
   \<and> list_all plain (path_recipes (split_on newline diff_foo_two_versions))
   \<and> plain ''foo''
   \<and> count_list (path_recipes (split_on newline diff_foo_two_versions)) ''foo'' = 1
   \<and> ''foo'' @ ''@'' @ ''2.1'' \<in> set [''foo@2.1'', ''foo@2.0'']
   \<and> ''foo'' \<notin> set [''foo@2.1'', ''foo@2.0'']"
proof -
  have h1: "parse_diff diff_foo_two_versions = Inr [''foo@2.1'', ''foo@2.0'']" by code_simp
  have h2: "list_all plain (path_recipes (split_on newline diff_foo_two_versions))" by code_simp
  have h3: "plain ''foo''" by code_simp
  have c: "count_list (path_recipes (split_on newline diff_foo_two_versions)) ''foo'' = 1"
    by code_simp
  then have h4: "count_list (path_recipes (split_on newline diff_foo_two_versions)) ''foo'' \<le> 1"
    by simp
  from bare_superseded [OF h1 h2 h3 h4, of "''2.1''"] h1 h2 h3 c show ?thesis by simp
qed


section \<open>The expander in closed form\<close>

lemma snd_get_safe_versions:
  "snd (get_safe_versions proc spec)
   = ''bin/spack versions --safe '' @ takeWhile (\<lambda>c. c \<noteq> CHR ''+'') spec"
  by (simp add: get_safe_versions_def run_def hd_split_on Let_def split: prod.splits)

lemma expand_loop_closed:
  assumes "\<forall>k\<in>set kept. safe_versions_of proc k = []"
  shows "expand_loop proc n rest (kept @ rest @ added) =
           (Inr (kept @ filter (\<lambda>s. safe_versions_of proc s = []) rest @ added
                 @ concat (map (expansion proc n) (filter (\<lambda>s. safe_versions_of proc s \<noteq> []) rest))),
            map (\<lambda>s. snd (get_safe_versions proc (hd (split_on (CHR ''@'') s)))) rest)"
  using assms
proof (induction rest arbitrary: kept added)
  case Nil
  then show ?case by simp
next
  case (Cons spec rest)
  obtain safe msg where g: "get_safe_versions proc (hd (split_on (CHR ''@'') spec)) = (safe, msg)"
    by (cases "get_safe_versions proc (hd (split_on (CHR ''@'') spec))")
  then have sv: "safe_versions_of proc spec = safe" by (simp add: safe_versions_of_def)
  show ?case
  proof (cases "safe = []")
    case True
    have "\<forall>k\<in>set (kept @ [spec]). safe_versions_of proc k = []"
      using Cons.prems sv True by simp
    from Cons.IH [OF this, of added] show ?thesis
      using g sv True by simp
  next
    case False
    have notin: "spec \<notin> set kept" using Cons.prems sv False by auto
    then have rm: "remove1 spec (kept @ spec # rest @ added) = kept @ rest @ added"
      by (simp add: remove1_append)
    from Cons.IH [OF Cons.prems, of "added @ expansion proc n spec"] show ?thesis
      using g sv False rm by (simp add: expansion_def)
  qed
qed

lemma expand_closed:
  "expand_specs_to_check_package_versions proc specs_to_check n =
     (Inr (filter (\<lambda>s. safe_versions_of proc s = []) specs_to_check
           @ concat (map (expansion proc n)
                       (filter (\<lambda>s. safe_versions_of proc s \<noteq> []) specs_to_check))),
      map (\<lambda>s. ''bin/spack versions --safe '' @ before (CHR ''+'') (before (CHR ''@'') s)) specs_to_check)"
  using expand_loop_closed [of "[]" proc n specs_to_check "[]"]
  by (simp add: expand_specs_to_check_package_versions_def snd_get_safe_versions hd_split_on )


lemma safe_versions_of_expansion:
  assumes "e \<in> set (expansion proc n s)"
  shows "safe_versions_of proc e = safe_versions_of proc s \<and> safe_versions_of proc s \<noteq> []"
  using assms
  by (auto simp: expansion_def safe_versions_of_def hd_split_on takeWhile_takeWhile_after slice_to_def
           split: if_splits)

lemma safe_versions_of_eq:
  assumes "proc [''bin/spack'', ''versions'', ''--safe'', before (CHR ''+'') (before (CHR ''@'') spec)] = (err, out, e)"
  shows "safe_versions_of proc spec
         = remove_skip_versions (if err = 0 then safe_version_words (strip out) else [])"
  using assms by (simp add: safe_versions_of_def get_safe_versions_def run_def hd_split_on)

lemma remove_skip_versions_Nil: "remove_skip_versions [] = []"
  by (simp add: remove_skip_versions_def remove_if_in_def)

section \<open>Soft failure of the version query\<close>

text \<open>
  Claim C6: when the command for a spec's recipe returns a code other than 0, or its
  output has no version word, the expander returns a collection in which that spec
  occurs as many times as in the input: it is not removed, not replaced and not
  duplicated.
\<close>

theorem soft_failure_preserved:
  assumes "spec \<in> set specs_to_check"
    and "proc [''bin/spack'', ''versions'', ''--safe'', before (CHR ''+'') (before (CHR ''@'') spec)]
         = (err, out, e)"
    and "err \<noteq> 0 \<or> safe_version_words (strip out) = []"
  shows "\<exists>r. fst (expand_specs_to_check_package_versions proc specs_to_check max_versions) = Inr r
             \<and> spec \<in> set r
             \<and> count_list r spec = count_list specs_to_check spec"
proof -
  have none: "safe_versions_of proc spec = []"
    using assms(3) safe_versions_of_eq [of proc spec err out e, OF assms(2)]
    by (auto simp: remove_skip_versions_Nil)
  let ?kept = "filter (\<lambda>s. safe_versions_of proc s = []) specs_to_check"
  let ?new = "concat (map (expansion proc max_versions)
                        (filter (\<lambda>s. safe_versions_of proc s \<noteq> []) specs_to_check))"
  have "spec \<notin> set ?new"
    using none safe_versions_of_expansion by fastforce
  then have "count_list ?new spec = 0" by (simp add: count_list_0_iff)
  moreover have "count_list ?kept spec = count_list specs_to_check spec"
    using none by (simp add: count_list_filter)
  moreover have "spec \<in> set ?kept" using assms(1) none by simp
  ultimately show ?thesis by (simp add: expand_closed)
qed


theorem soft_failure_preserved_witness:
  "''curl'' \<in> set [''wget'', ''curl'']
   \<and> spack [''bin/spack'', ''versions'', ''--safe'', before (CHR ''+'') (before (CHR ''@'') ''curl'')]
       = (1, [], ''==> Error: Package not found.\<newline>'')
   \<and> (1::int) \<noteq> 0
   \<and> (\<exists>r. fst (expand_specs_to_check_package_versions spack [''wget'', ''curl''] 3) = Inr r
          \<and> ''curl'' \<in> set r
          \<and> count_list r ''curl'' = count_list [''wget'', ''curl''] ''curl'')"
proof -
  have h1: "''curl'' \<in> set [''wget'', ''curl'']" by simp
  have h2: "spack [''bin/spack'', ''versions'', ''--safe'', before (CHR ''+'') (before (CHR ''@'') ''curl'')]
            = (1, [], ''==> Error: Package not found.\<newline>'')"
    by (simp add: spack_def)
  have h3: "(1::int) \<noteq> 0 \<or> safe_version_words (strip []) = []" by simp
  from soft_failure_preserved [of "''curl''" "[''wget'', ''curl'']" spack 1 "[]" _ 3, OF h1 h2 h3]
    h1 h2 show ?thesis by simp
qed

section \<open>What the example build tool answers\<close>

lemma spack_wget: "safe_versions_of spack ''wget@1.3'' = [''2.4.1'', ''2.3'', ''2.2'', ''2.1'']"
  by code_simp

lemma spack_curl: "safe_versions_of spack ''curl'' = []"
  by code_simp

lemma spack_wget_ssl: "safe_versions_of spack ''wget+ssl@1.0'' = [''2.4.1'', ''2.3'', ''2.2'', ''2.1'']"
  by code_simp

section \<open>The contract of the expander\<close>

text \<open>
  Claim C1, as stated, fails: the loop runs over every spec of the collection, and
  \<^verbatim>\<open>spec.split("@")[0]\<close> cuts the version off before the query, so a spec that carries
  a version is queried for and replaced as well. With three versions asked for, the spec
  \<^verbatim>\<open>wget@1.3\<close> is not left unchanged.
\<close>

theorem versioned_spec_expanded:
  "expand_specs_to_check_package_versions spack [''wget@1.3''] 3 =
     (Inr [''wget@2.4.1'', ''wget@2.3'', ''wget@2.2''], [''bin/spack versions --safe wget''])"
  by code_simp

text \<open>
  Claim C1, amended: for a cap that is not negative, the expander queries once for every
  spec of the collection, bare or versioned, in order, with the recipe name (the text
  before the first \<^verbatim>\<open>@\<close>, cut at the first \<^verbatim>\<open>+\<close>). The specs for which no version comes
  back stay, in their order; every other spec is removed, and for each of them, in order,
  the specs \<^verbatim>\<open>prefix@version\<close> are appended for the first \<open>max_versions\<close> versions that
  came back, in the order they came back; \<open>prefix\<close> is the text of the spec before its
  first \<^verbatim>\<open>@\<close>. The expander raises no exception.
\<close>

theorem expander_contract:
  assumes "0 \<le> max_versions"
  shows "expand_specs_to_check_package_versions proc specs_to_check max_versions =
           (Inr (filter (\<lambda>s. safe_versions_of proc s = []) specs_to_check
                 @ concat (map (\<lambda>s. map (\<lambda>v. before (CHR ''@'') s @ ''@'' @ v)
                                       (take (nat max_versions) (safe_versions_of proc s)))
                             (filter (\<lambda>s. safe_versions_of proc s \<noteq> []) specs_to_check))),
            map (\<lambda>s. ''bin/spack versions --safe '' @ before (CHR ''+'') (before (CHR ''@'') s))
              specs_to_check)"
proof -
  have "expansion proc max_versions
        = (\<lambda>s. map (\<lambda>v. before (CHR ''@'') s @ ''@'' @ v)
                  (take (nat max_versions) (safe_versions_of proc s)))"
    using assms by (simp add: expansion_def slice_to_def hd_split_on fun_eq_iff)
  then show ?thesis by (simp add: expand_closed)
qed

theorem expander_contract_witness:
  "(0::int) \<le> 3
   \<and> expand_specs_to_check_package_versions spack [''curl'', ''wget@1.3''] 3 =
       (Inr [''curl'', ''wget@2.4.1'', ''wget@2.3'', ''wget@2.2''],
        [''bin/spack versions --safe curl'', ''bin/spack versions --safe wget''])"
proof -
  have h: "(0::int) \<le> 3" by simp
  from expander_contract [OF h, of spack "[''curl'', ''wget@1.3'']"] show ?thesis
    by (simp add: spack_wget spack_curl)
qed

section \<open>The cap and the development labels\<close>

text \<open>
  Claim C7: the cap is 3 and the command lists five version words, one of which is one
  of the labels \<^verbatim>\<open>master\<close>, \<^verbatim>\<open>develop\<close>, \<^verbatim>\<open>main\<close>. For a collection of one spec the
  expander returns exactly three specs, \<^verbatim>\<open>prefix@version\<close> for the first three of the
  four words that are not labels, in the order of the output.
\<close>

theorem cap_three_of_five:
  assumes "proc [''bin/spack'', ''versions'', ''--safe'', before (CHR ''+'') (before (CHR ''@'') spec)]
           = (0, out, e)"
    and "length (safe_version_words (strip out)) = 5"
    and "length (filter (\<lambda>v. v \<in> {''master'', ''develop'', ''main''})
                   (safe_version_words (strip out))) = 1"
  shows "fst (expand_specs_to_check_package_versions proc [spec] 3)
         = Inr (map (\<lambda>v. before (CHR ''@'') spec @ ''@'' @ v)
                  (take 3 (filter (\<lambda>v. v \<notin> {''master'', ''develop'', ''main''})
                             (safe_version_words (strip out)))))
         \<and> length (take 3 (filter (\<lambda>v. v \<notin> {''master'', ''develop'', ''main''})
                             (safe_version_words (strip out)))) = 3"
proof -
  let ?vs = "safe_version_words (strip out)"
  let ?dev = "\<lambda>v. v \<in> {''master'', ''develop'', ''main''}"
  let ?keep = "filter (\<lambda>v. v \<notin> {''master'', ''develop'', ''main''}) ?vs"
  have c: "count_list ?vs ''master'' \<le> 1" "count_list ?vs ''develop'' \<le> 1"
          "count_list ?vs ''main'' \<le> 1"
    using assms(3) count_list_le_filter [of ?dev _ ?vs] by (metis insertI1 insertI2)+
  have sv: "safe_versions_of proc spec = ?keep"
    using safe_versions_of_eq [of proc spec 0 out e, OF assms(1)]
    by (simp add: remove_skip_versions_filter [OF c])
  have "length (filter ?dev ?vs) + length ?keep = length ?vs"
    using sum_length_filter_compl [of ?dev ?vs] by simp
  with assms(2,3) have len: "length ?keep = 4" by simp
  then have ne: "?keep \<noteq> []" by auto
  have "fst (expand_specs_to_check_package_versions proc [spec] 3)
        = Inr (expansion proc 3 spec)"
    using sv ne by (simp add: expand_closed)
  moreover have "expansion proc 3 spec
        = map (\<lambda>v. before (CHR ''@'') spec @ ''@'' @ v) (take 3 ?keep)"
    by (simp add: expansion_def sv slice_to_def hd_split_on)
  ultimately show ?thesis using len by simp
qed

theorem cap_three_of_five_witness:
  "spack [''bin/spack'', ''versions'', ''--safe'', before (CHR ''+'') (before (CHR ''@'') ''wget'')]
     = (0, ''==> Safe versions (already checksummed):\<newline>master  2.4.1  2.3  2.2  2.1\<newline>'', [])
   \<and> safe_version_words (strip ''==> Safe versions (already checksummed):\<newline>master  2.4.1  2.3  2.2  2.1\<newline>'')
       = [''master'', ''2.4.1'', ''2.3'', ''2.2'', ''2.1'']
   \<and> fst (expand_specs_to_check_package_versions spack [''wget''] 3)
       = Inr [''wget@2.4.1'', ''wget@2.3'', ''wget@2.2'']"
proof -
  let ?out = "''==> Safe versions (already checksummed):\<newline>master  2.4.1  2.3  2.2  2.1\<newline>''"
  have h1: "spack [''bin/spack'', ''versions'', ''--safe'', before (CHR ''+'') (before (CHR ''@'') ''wget'')]
            = (0, ?out, [])"
    by code_simp
  have w: "safe_version_words (strip ?out) = [''master'', ''2.4.1'', ''2.3'', ''2.2'', ''2.1'']"
    by code_simp
  have h2: "length (safe_version_words (strip ?out)) = 5" by (simp add: w)
  have h3: "length (filter (\<lambda>v. v \<in> {''master'', ''develop'', ''main''})
                      (safe_version_words (strip ?out))) = 1"
    by (simp add: w)
  from cap_three_of_five [of spack "''wget''" ?out "[]", OF h1 h2 h3] h1 w show ?thesis
    by simp
qed

section \<open>Specs with variants\<close>

text \<open>
  Claim C10: for a spec with a \<^verbatim>\<open>+\<close> before any \<^verbatim>\<open>@\<close>, at any place of the collection, the
  command logged for it names the text before the first \<^verbatim>\<open>+\<close> only. The collection
  returned is exactly the specs for which no version came back, followed, for each other
  spec in order, by the specs \<^verbatim>\<open>prefix@version\<close> for the versions kept by the cap, where
  \<open>prefix\<close> is the whole text of that spec before its first \<^verbatim>\<open>@\<close>: nothing else is in it,
  so no spec with the variants cut off. The specs appended for the spec stand one after
  the other in the result, and each of them has before its first \<^verbatim>\<open>@\<close> the same text as
  the spec, with the \<^verbatim>\<open>+\<close> in it: only the version is replaced.
\<close>

theorem variants_kept:
  assumes "i < length specs_to_check"
    and "specs_to_check ! i = spec"
    and "CHR ''+'' \<in> set (before (CHR ''@'') spec)"
  shows "snd (expand_specs_to_check_package_versions proc specs_to_check max_versions) ! i
           = ''bin/spack versions --safe '' @ before (CHR ''+'') spec
         \<and> fst (expand_specs_to_check_package_versions proc specs_to_check max_versions)
           = Inr (filter (\<lambda>s. safe_versions_of proc s = []) specs_to_check
                  @ concat (map (\<lambda>s. map (\<lambda>v. before (CHR ''@'') s @ ''@'' @ v)
                                        (slice_to max_versions (safe_versions_of proc s)))
                              (filter (\<lambda>s. safe_versions_of proc s \<noteq> []) specs_to_check)))
         \<and> (\<exists>pre post.
               fst (expand_specs_to_check_package_versions proc specs_to_check max_versions)
               = Inr (pre @ map (\<lambda>v. before (CHR ''@'') spec @ ''@'' @ v)
                              (slice_to max_versions (safe_versions_of proc spec)) @ post))
         \<and> list_all (\<lambda>e. before (CHR ''@'') e = before (CHR ''@'') spec
                          \<and> CHR ''+'' \<in> set (before (CHR ''@'') e))
               (map (\<lambda>v. before (CHR ''@'') spec @ ''@'' @ v)
                  (slice_to max_versions (safe_versions_of proc spec)))"
proof -
  have q: "before (CHR ''+'') (before (CHR ''@'') spec) = before (CHR ''+'') spec"
    using assms(3) by (intro before_before [of "CHR ''+''"]) simp_all
  have first: "snd (expand_specs_to_check_package_versions proc specs_to_check max_versions) ! i
               = ''bin/spack versions --safe '' @ before (CHR ''+'') spec"
    using assms(1,2) q by (simp add: expand_closed)
  let ?kept = "filter (\<lambda>s. safe_versions_of proc s = []) specs_to_check"
  let ?exp = "filter (\<lambda>s. safe_versions_of proc s \<noteq> []) specs_to_check"
  let ?blk = "\<lambda>s. map (\<lambda>v. before (CHR ''@'') s @ ''@'' @ v)
                  (slice_to max_versions (safe_versions_of proc s))"
  have blk: "expansion proc max_versions = ?blk"
    by (simp add: expansion_def hd_split_on fun_eq_iff)
  have whole: "fst (expand_specs_to_check_package_versions proc specs_to_check max_versions)
               = Inr (?kept @ concat (map ?blk ?exp))"
    by (simp add: expand_closed blk)
  have "\<exists>pre post. ?kept @ concat (map ?blk ?exp) = pre @ ?blk spec @ post"
  proof (cases "safe_versions_of proc spec = []")
    case True
    then have "?blk spec = []" by (simp add: slice_to_def)
    then show ?thesis by (metis append_Nil append_Nil2)
  next
    case False
    have "spec \<in> set specs_to_check" using assms(1,2) by auto
    with False have "spec \<in> set ?exp" by simp
    then obtain a b where "?exp = a @ spec # b" by (meson split_list)
    then have "?kept @ concat (map ?blk ?exp)
               = (?kept @ concat (map ?blk a)) @ ?blk spec @ concat (map ?blk b)"
      by simp
    then show ?thesis by blast
  qed
  with whole have place: "\<exists>pre post.
               fst (expand_specs_to_check_package_versions proc specs_to_check max_versions)
               = Inr (pre @ ?blk spec @ post)"
    by simp
  have keep: "list_all (\<lambda>e. before (CHR ''@'') e = before (CHR ''@'') spec
                          \<and> CHR ''+'' \<in> set (before (CHR ''@'') e)) (?blk spec)"
    using assms(3) by (simp add: list_all_iff takeWhile_takeWhile_after)
  from first whole place keep show ?thesis by blast
qed

theorem variants_kept_witness:
  "(0::nat) < length [''wget+ssl@1.0'', ''curl'']
   \<and> [''wget+ssl@1.0'', ''curl''] ! 0 = ''wget+ssl@1.0''
   \<and> CHR ''+'' \<in> set (before (CHR ''@'') ''wget+ssl@1.0'')
   \<and> snd (expand_specs_to_check_package_versions spack [''wget+ssl@1.0'', ''curl''] 2) ! 0
       = ''bin/spack versions --safe wget''
   \<and> fst (expand_specs_to_check_package_versions spack [''wget+ssl@1.0'', ''curl''] 2)
       = Inr [''curl'', ''wget+ssl@2.4.1'', ''wget+ssl@2.3'']"
proof -
  have h1: "(0::nat) < length [''wget+ssl@1.0'', ''curl'']" by simp
  have h2: "[''wget+ssl@1.0'', ''curl''] ! 0 = ''wget+ssl@1.0''" by simp
  have h3: "CHR ''+'' \<in> set (before (CHR ''@'') ''wget+ssl@1.0'')" by simp
  from variants_kept [of 0 "[''wget+ssl@1.0'', ''curl'']" "''wget+ssl@1.0''" spack 2, OF h1 h2 h3]
    h1 h2 h3
  show ?thesis by (simp add: spack_wget_ssl spack_curl slice_to_def)
qed


end
